theory Spec2Isabelle
  imports Main "HOL-Library.Word" "HOL-Library.Code_Target_Nat"
begin

section \<open>The screenshot service of libnspire\<close>

text \<open>
  A shallow embedding of \<^verbatim>\<open>libnspire/src/services/screenshot.c\<close>: the run-length decoder
  \<^verbatim>\<open>rle_decode\<close> and the protocol exchange \<^verbatim>\<open>nspire_screenshot\<close>.
  Buffers are lists of bytes, a pointer into a buffer is an offset, and a copy that would
  leave its buffer is a separate result of the model instead of a value.
\<close>

type_synonym byte = "8 word"

subsection \<open>Memory copies\<close>

text \<open>
  \<^verbatim>\<open>memcpy(dst + d, src + s, n)\<close>. The copy is defined only when both ranges lie
  inside their buffers; otherwise the result is \<open>None\<close>.
\<close>

definition memcpy :: "byte list \<Rightarrow> nat \<Rightarrow> byte list \<Rightarrow> nat \<Rightarrow> nat \<Rightarrow> byte list option" where
  "memcpy dst d src s n =
     (if d + n \<le> length dst \<and> s + n \<le> length src
      then Some (take d dst @ take n (drop s src) @ drop (d + n) dst)
      else None)"

subsection \<open>The run-length decoder\<close>

text \<open>
  \<^verbatim>\<open>const size_t rle_size = (bpp * 2) / 8; // 2px\<close>. The operand \<^verbatim>\<open>bpp\<close> is a
  \<^verbatim>\<open>uint8_t\<close> promoted to \<^verbatim>\<open>int\<close>, so the product is at most 510 and the quotient
  at most 63.
\<close>

definition rle_size :: "byte \<Rightarrow> nat" where
  "rle_size bpp = (unat bpp * 2) div 8"

text \<open>
  The variables of the loop: \<open>in_pos\<close> and \<open>out_pos\<close> are the offsets of the pointers
  \<^verbatim>\<open>in\<close> and \<^verbatim>\<open>out\<close> from the start of their buffers, \<open>in_size\<close> and \<open>out_size\<close>
  the two countdown lengths, \<open>out_buf\<close> the contents of the output buffer. The lengths
  are natural numbers: every subtraction from them in the code is guarded by a comparison
  that keeps it from wrapping around, so none is cut off at 0 here either.
\<close>

record rle_state =
  in_pos :: nat
  in_size :: nat
  out_pos :: nat
  out_size :: nat
  out_buf :: "byte list"

text \<open>
  One pass through the loop body either reaches the end of the body (\<open>Continue\<close>),
  executes \<^verbatim>\<open>return\<close> (\<open>Return\<close>), or reads or writes outside a buffer (\<open>Fault\<close>).
\<close>

datatype step = Continue rle_state | Return rle_state | Fault

text \<open>
  The branch \<^verbatim>\<open>len < 0\<close>. The product \<^verbatim>\<open>(-len + 1) * rle_size\<close> is at most
  \<open>129 * 63\<close>, so neither the conversion to \<^verbatim>\<open>size_t\<close> for the multiplication and the
  comparisons nor the conversion back to \<^verbatim>\<open>int\<close> changes a value: natural numbers
  model all three assignments to \<^verbatim>\<open>len\<close> exactly.
\<close>

definition literal_run :: "nat \<Rightarrow> byte list \<Rightarrow> int \<Rightarrow> rle_state \<Rightarrow> step" where
  "literal_run rs inb len st =
     (let len1 = nat (- len + 1) * rs;
          len2 = (if len1 < out_size st then len1 else out_size st);
          len3 = (if len2 < in_size st then len2 else in_size st)
      in case memcpy (out_buf st) (out_pos st) inb (in_pos st) len3 of
           None \<Rightarrow> Fault
         | Some ob \<Rightarrow>
             Continue (st\<lparr>in_size := in_size st - len3,
                          in_pos := in_pos st + len3,
                          out_size := out_size st - len3,
                          out_pos := out_pos st + len3,
                          out_buf := ob\<rparr>))"

text \<open>
  The inner \<^verbatim>\<open>for\<close> loop of the branch \<^verbatim>\<open>len >= 0\<close>; the third argument is the
  number of iterations still to run, \<^verbatim>\<open>len + 1 - i\<close>.
\<close>

fun repeat_loop :: "nat \<Rightarrow> byte list \<Rightarrow> nat \<Rightarrow> rle_state \<Rightarrow> rle_state option" where
  "repeat_loop rs inb 0 st = Some st"
| "repeat_loop rs inb (Suc k) st =
     (if out_size st < rs then Some st
      else case memcpy (out_buf st) (out_pos st) inb (in_pos st) rs of
             None \<Rightarrow> None
           | Some ob \<Rightarrow>
               repeat_loop rs inb k
                 (st\<lparr>out_size := out_size st - rs,
                     out_pos := out_pos st + rs,
                     out_buf := ob\<rparr>))"

text \<open>
  The body of the \<^verbatim>\<open>while\<close> loop. The control byte is read through
  \<^verbatim>\<open>(int8_t)*in++\<close>, a read that must lie inside the input buffer.
\<close>

definition rle_body :: "nat \<Rightarrow> byte list \<Rightarrow> rle_state \<Rightarrow> step" where
  "rle_body rs inb st =
     (if in_pos st < length inb then
        (let len = sint (inb ! in_pos st);
             st1 = st\<lparr>in_pos := in_pos st + 1, in_size := in_size st - 1\<rparr>
         in if len < 0 then literal_run rs inb len st1
            else if in_size st1 < rs then Return st1
            else (case repeat_loop rs inb (nat (len + 1)) st1 of
                    None \<Rightarrow> Fault
                  | Some st2 \<Rightarrow>
                      Continue (st2\<lparr>in_size := in_size st2 - rs,
                                    in_pos := in_pos st2 + rs\<rparr>)))
      else Fault)"

text \<open>
  \<^verbatim>\<open>while (in_size > 1 && out_size) { ... }\<close>. The result is the state in which the
  function returns, or \<open>None\<close> after an access outside a buffer.
\<close>

function rle_loop :: "nat \<Rightarrow> byte list \<Rightarrow> rle_state \<Rightarrow> rle_state option" where
  "rle_loop rs inb st =
     (if 1 < in_size st \<and> out_size st \<noteq> 0 then
        (case rle_body rs inb st of
           Continue st' \<Rightarrow> rle_loop rs inb st'
         | Return st' \<Rightarrow> Some st'
         | Fault \<Rightarrow> None)
      else Some st)"
  by pat_completeness auto
termination
proof (relation "measure (\<lambda>(rs, inb, st). in_size st)")
  show "wf (measure (\<lambda>(rs, inb, st). in_size st))"
    by simp
next
  fix rs :: nat and inb :: "byte list" and st st' :: rle_state
  assume run: "1 < in_size st \<and> out_size st \<noteq> 0"
    and body: "rle_body rs inb st = Continue st'"
  have keep: "in_size s' = in_size s" if "repeat_loop rs inb k s = Some s'" for k s s'
    using that by (induction k arbitrary: s) (auto split: if_splits option.splits)
  have "in_size st' < in_size st"
  proof (cases "sint (inb ! in_pos st) < 0")
    case True
    with run body show ?thesis
      by (auto simp: rle_body_def literal_run_def Let_def split: if_splits option.splits)
  next
    case False
    with run body show ?thesis
      by (auto simp: rle_body_def Let_def split: if_splits option.splits dest!: keep)
  qed
  then show "((rs, inb, st'), (rs, inb, st)) \<in> measure (\<lambda>(rs, inb, st). in_size st)"
    by simp
qed

declare rle_loop.simps [simp del]

definition rle_init :: "byte list \<Rightarrow> nat \<Rightarrow> nat \<Rightarrow> rle_state" where
  "rle_init outb in_sz out_sz =
     \<lparr>in_pos = 0, in_size = in_sz, out_pos = 0, out_size = out_sz, out_buf = outb\<rparr>"

text \<open>
  \<^verbatim>\<open>rle_decode(bpp, in, out, in_size, out_size)\<close>: the contents of the output buffer
  when the function returns.
\<close>

definition rle_decode :: "byte \<Rightarrow> byte list \<Rightarrow> byte list \<Rightarrow> nat \<Rightarrow> nat \<Rightarrow> byte list option" where
  "rle_decode bpp inb outb in_sz out_sz =
     map_option out_buf (rle_loop (rle_size bpp) inb (rle_init outb in_sz out_sz))"

text \<open>
  The relation between the cursors, the countdown lengths and the buffers that holds when
  \<^verbatim>\<open>rle_decode\<close> is entered with \<^verbatim>\<open>in_size\<close> and \<^verbatim>\<open>out_size\<close> the lengths of
  its two buffers, and that every pass through the loop keeps.
\<close>

definition rle_inv :: "byte list \<Rightarrow> rle_state \<Rightarrow> bool" where
  "rle_inv inb st \<longleftrightarrow>
     in_pos st + in_size st = length inb \<and> out_pos st + out_size st = length (out_buf st)"

subsection \<open>A literal-run encoder\<close>

text \<open>
  Modelled from the spec: the literal-run encoder of the round-trip property, which the
  repository does not contain. The spec fixes the format of a literal run, a control byte
  \<open>k < 0\<close> followed by \<open>(-k + 1) * unit\<close> bytes, so one run carries between 2 and 129
  units. The encoder cuts the raw buffer into runs of 129 units; the last run gets the
  smallest count of units, at least 2, that covers what is left, and may fall short of its
  count, which the decoder's clamp absorbs. With a unit of 0 no run can carry a byte and
  the encoder emits nothing.
\<close>

function literal_encode :: "nat \<Rightarrow> byte list \<Rightarrow> byte list" where
  "literal_encode rs raw =
     (if rs = 0 \<or> raw = [] then []
      else (let run = take (129 * rs) raw;
                units = max 2 ((length run + rs - 1) div rs)
            in word_of_int (1 - int units) # run @ literal_encode rs (drop (129 * rs) raw)))"
  by pat_completeness auto
termination
  by (relation "measure (\<lambda>(rs, raw). length raw)") auto

declare literal_encode.simps [simp del]

subsection \<open>The header of the first packet\<close>

text \<open>
  Modelled from the spec: \<^verbatim>\<open>data_scan\<close>, which lives in \<^verbatim>\<open>data.c\<close> and is not among
  the sources. It reads a buffer along a format string and hands each field to the
  matching pointer argument. The spec describes the fields of the format used here as a
  byte (\<^verbatim>\<open>b\<close>), a little-endian 16-bit value (\<^verbatim>\<open>h\<close>) and a little-endian 32-bit value
  (\<^verbatim>\<open>w\<close>), which agrees with the types of the variables that receive them
  (\<^verbatim>\<open>uint8_t\<close>, \<^verbatim>\<open>uint16_t\<close>, \<^verbatim>\<open>uint32_t\<close>), and says that the scan fails when the
  buffer is shorter than the layout. The result is the list of fields in order, or
  \<open>None\<close> for a failed scan.
\<close>

datatype field = Field8 byte | Field16 "16 word" | Field32 "32 word"

definition le16 :: "byte \<Rightarrow> byte \<Rightarrow> 16 word" where
  "le16 b0 b1 = word_of_nat (unat b0 + 2 ^ 8 * unat b1)"

definition le32 :: "byte \<Rightarrow> byte \<Rightarrow> byte \<Rightarrow> byte \<Rightarrow> 32 word" where
  "le32 b0 b1 b2 b3 =
     word_of_nat (unat b0 + 2 ^ 8 * unat b1 + 2 ^ 16 * unat b2 + 2 ^ 24 * unat b3)"

fun data_scan :: "string \<Rightarrow> byte list \<Rightarrow> field list option" where
  "data_scan [] buf = Some []"
| "data_scan (c # fmt) buf =
     (if c = CHR ''b'' then
        (case buf of
           b0 # rest \<Rightarrow> map_option ((#) (Field8 b0)) (data_scan fmt rest)
         | _ \<Rightarrow> None)
      else if c = CHR ''h'' then
        (case buf of
           b0 # b1 # rest \<Rightarrow> map_option ((#) (Field16 (le16 b0 b1))) (data_scan fmt rest)
         | _ \<Rightarrow> None)
      else if c = CHR ''w'' then
        (case buf of
           b0 # b1 # b2 # b3 # rest \<Rightarrow>
             map_option ((#) (Field32 (le32 b0 b1 b2 b3))) (data_scan fmt rest)
         | _ \<Rightarrow> None)
      else None)"

text \<open>
  The values that \<^verbatim>\<open>nspire_screenshot\<close> keeps from the first packet:
  \<^verbatim>\<open>size\<close>, \<^verbatim>\<open>width\<close>, \<^verbatim>\<open>height\<close> and \<^verbatim>\<open>bpp\<close>.
\<close>

record image_header =
  hdr_size :: "32 word"
  hdr_width :: "16 word"
  hdr_height :: "16 word"
  hdr_bpp :: byte

text \<open>
  \<^verbatim>\<open>data_scan("bwhhhhbb", buffer, sizeof(buffer), NULL, &size, NULL, NULL, &width,
  &height, &bpp, NULL)\<close>: eight fields, of which the second, fifth, sixth and seventh are
  stored and the others, passed \<^verbatim>\<open>NULL\<close>, are skipped.
\<close>

definition scan_header :: "byte list \<Rightarrow> image_header option" where
  "scan_header buffer =
     (case data_scan ''bwhhhhbb'' buffer of
        Some [f0, Field32 sz, f2, f3, Field16 width, Field16 height, Field8 bpp, f7] \<Rightarrow>
          Some \<lparr>hdr_size = sz, hdr_width = width, hdr_height = height, hdr_bpp = bpp\<rparr>
      | _ \<Rightarrow> None)"

subsection \<open>The transport and the result of a call\<close>

text \<open>
  \<^verbatim>\<open>struct nspire_image\<close>; the fields carry a prefix to keep \<open>bpp\<close> and \<open>data\<close> free
  as variable names.
\<close>

record nspire_image =
  img_width :: "16 word"
  img_height :: "16 word"
  img_bpp :: byte
  img_data :: "byte list"

text \<open>
  The functions of the transport layer (\<^verbatim>\<open>service_connect\<close>, \<^verbatim>\<open>data_write8\<close>,
  \<^verbatim>\<open>data_read\<close>, \<^verbatim>\<open>service_disconnect\<close>, \<^verbatim>\<open>packet_max_datasize\<close>) and the allocator are
  outside the sources; the model takes what they do as a parameter. A \<open>handle\<close> says what
  \<^verbatim>\<open>packet_max_datasize\<close> returns, what \<^verbatim>\<open>service_connect\<close> and \<^verbatim>\<open>data_write8\<close> return,
  for each successive call of \<^verbatim>\<open>data_read\<close> its return value and the contents of
  \<^verbatim>\<open>buffer\<close> afterwards, whether each of the two calls of \<^verbatim>\<open>malloc\<close> succeeds, and
  the bytes found in freshly allocated memory.
\<close>

record handle =
  packet_max_datasize :: nat
  connect_ret :: int
  write8_ret :: int
  reads :: "(int \<times> byte list) list"
  malloc_tmp_ok :: bool
  malloc_image_ok :: bool
  fresh :: "nat \<Rightarrow> byte"

text \<open>The calls to the transport and the allocator, in the order in which they are made.\<close>

datatype event =
    Service_connect nat | Data_write8 byte | Data_read
  | Malloc_tmp | Malloc_image | Free_tmp | Free_image
  | Service_disconnect

text \<open>
  The value returned: \<^verbatim>\<open>NSPIRE_ERR_SUCCESS\<close>, \<^verbatim>\<open>-NSPIRE_ERR_NOMEM\<close>, the non-zero
  value of a transport function handed through, or the non-zero value of \<^verbatim>\<open>data_scan\<close>.
\<close>

datatype ret = Success | No_memory | Transport_error int | Scan_error

text \<open>
  A call returns a value and possibly an image stored through \<^verbatim>\<open>ptr\<close>; or it leaves
  defined behaviour (a copy outside a buffer, a signed overflow); or it asks for more
  reads than the handle describes.
\<close>

datatype outcome = Returned ret "nspire_image option" | Undefined | Script_ended

record result =
  trace :: "event list"
  outcome :: outcome

text \<open>
  The loop \<^verbatim>\<open>while (size) { ... }\<close> that fills \<^verbatim>\<open>tmp\<close>. The arguments are
  \<^verbatim>\<open>maxsize\<close>, \<^verbatim>\<open>size\<close>, the contents of \<^verbatim>\<open>tmp\<close>, the offset of \<^verbatim>\<open>tmp_ptr\<close> in it and
  the reads still to come; the result is the number of calls of \<^verbatim>\<open>data_read\<close> that
  returned and how the loop ended: with \<^verbatim>\<open>size\<close> at 0, by a failed read
  (\<^verbatim>\<open>goto error_free\<close>), by a copy outside \<^verbatim>\<open>buffer\<close> or \<^verbatim>\<open>tmp\<close>, or by running out of
  described reads.
\<close>

datatype loop_end = Filled "byte list" | Read_error int | Bad_copy | No_more_reads

function reassemble ::
  "nat \<Rightarrow> nat \<Rightarrow> byte list \<Rightarrow> nat \<Rightarrow> (int \<times> byte list) list \<Rightarrow> nat \<times> loop_end" where
  "reassemble maxsize sz tmp tmp_ptr script =
     (if sz = 0 then (0, Filled tmp)
      else case script of
             [] \<Rightarrow> (0, No_more_reads)
           | (r, buffer) # script' \<Rightarrow>
               if r \<noteq> 0 then (1, Read_error r)
               else (let len = (if maxsize < sz then maxsize else sz)
                     in case memcpy tmp tmp_ptr buffer 1 len of
                          None \<Rightarrow> (1, Bad_copy)
                        | Some tmp' \<Rightarrow>
                            (case reassemble maxsize (sz - len) tmp' (tmp_ptr + len) script' of
                               (n, e) \<Rightarrow> (Suc n, e))))"
  by pat_completeness auto
termination
  by (relation "measure (\<lambda>(maxsize, sz, tmp, tmp_ptr, script). length script)") auto

declare reassemble.simps [simp del]

text \<open>
  The label \<^verbatim>\<open>end\<close>: \<^verbatim>\<open>if (tmp) free(tmp); service_disconnect(handle); return ret;\<close>
\<close>

definition finish :: "event list \<Rightarrow> bool \<Rightarrow> ret \<Rightarrow> nspire_image option \<Rightarrow> result" where
  "finish tr tmp r img =
     \<lparr>trace = tr @ (if tmp then [Free_tmp] else []) @ [Service_disconnect],
      outcome = Returned r img\<rparr>"

text \<open>
  \<^verbatim>\<open>out_len = (width * height * bpp) / 8\<close>. The operands are promoted to \<^verbatim>\<open>int\<close>,
  taken here as 32 bits wide; a product beyond its range has no defined value.
\<close>

definition out_len :: "image_header \<Rightarrow> nat option" where
  "out_len hdr =
     (let width = uint (hdr_width hdr); height = uint (hdr_height hdr); bpp = uint (hdr_bpp hdr)
      in if 2 ^ 31 \<le> width * height \<or> 2 ^ 31 \<le> width * height * bpp then None
         else Some (nat ((width * height * bpp) div 8)))"

text \<open>
  \<^verbatim>\<open>const size_t maxsize = packet_max_datasize(handle) - 1;\<close> in unsigned arithmetic,
  with \<^verbatim>\<open>size_t\<close> taken as 64 bits wide.
\<close>

definition maxsize_of :: "handle \<Rightarrow> nat" where
  "maxsize_of h = (packet_max_datasize h + 2 ^ 64 - 1) mod 2 ^ 64"

text \<open>
  What follows the loop: the path through \<^verbatim>\<open>error_free\<close> after a failed read, or the
  call of \<^verbatim>\<open>rle_decode\<close>, the store through \<^verbatim>\<open>ptr\<close> and the path through \<^verbatim>\<open>end\<close>.
\<close>

fun after_loop :: "handle \<Rightarrow> event list \<Rightarrow> image_header \<Rightarrow> nat \<Rightarrow> loop_end \<Rightarrow> result" where
  "after_loop h tr hdr out_sz (Read_error r) =
     finish (tr @ [Free_image]) True (Transport_error r) None"
| "after_loop h tr hdr out_sz No_more_reads =
     \<lparr>trace = tr @ [Data_read], outcome = Script_ended\<rparr>"
| "after_loop h tr hdr out_sz Bad_copy = \<lparr>trace = tr, outcome = Undefined\<rparr>"
| "after_loop h tr hdr out_sz (Filled tmp) =
     (case rle_decode (hdr_bpp hdr) tmp (map (fresh h) [0..<out_sz])
             (unat (hdr_size hdr)) out_sz of
        None \<Rightarrow> \<lparr>trace = tr, outcome = Undefined\<rparr>
      | Some pixels \<Rightarrow>
          finish tr True Success
            (Some \<lparr>img_width = hdr_width hdr, img_height = hdr_height hdr,
                    img_bpp = hdr_bpp hdr, img_data = pixels\<rparr>))"

text \<open>
  The loop as \<^verbatim>\<open>nspire_screenshot\<close> runs it: \<^verbatim>\<open>size\<close> is the payload size of the
  header, \<^verbatim>\<open>tmp\<close> is the block of \<^verbatim>\<open>size\<close> bytes just allocated, \<^verbatim>\<open>tmp_ptr\<close> starts
  at \<^verbatim>\<open>tmp\<close>, and \<^verbatim>\<open>maxsize\<close> is \<^verbatim>\<open>packet_max_datasize(handle) - 1\<close>.
\<close>

definition payload_loop ::
  "handle \<Rightarrow> image_header \<Rightarrow> (int \<times> byte list) list \<Rightarrow> nat \<times> loop_end" where
  "payload_loop h hdr script =
     reassemble (maxsize_of h) (unat (hdr_size hdr))
       (map (fresh h) [0..<unat (hdr_size hdr)]) 0 script"

text \<open>The part of \<^verbatim>\<open>nspire_screenshot\<close> after the header has been scanned.\<close>

definition receive_image ::
  "handle \<Rightarrow> event list \<Rightarrow> (int \<times> byte list) list \<Rightarrow> image_header \<Rightarrow> result" where
  "receive_image h tr script hdr =
     (if \<not> malloc_tmp_ok h then finish (tr @ [Malloc_tmp]) False No_memory None
      else case out_len hdr of
             None \<Rightarrow> \<lparr>trace = tr @ [Malloc_tmp], outcome = Undefined\<rparr>
           | Some out_sz \<Rightarrow>
               if \<not> malloc_image_ok h
               then finish (tr @ [Malloc_tmp, Malloc_image]) True No_memory None
               else (let loop = payload_loop h hdr script
                     in after_loop h
                          (tr @ [Malloc_tmp, Malloc_image] @ replicate (fst loop) Data_read)
                          hdr out_sz (snd loop)))"

text \<open>\<^verbatim>\<open>int nspire_screenshot(nspire_handle_t *handle, struct nspire_image **ptr)\<close>\<close>

definition nspire_screenshot :: "handle \<Rightarrow> result" where
  "nspire_screenshot h =
     (if connect_ret h \<noteq> 0 then
        \<lparr>trace = [Service_connect 0x4024],
         outcome = Returned (Transport_error (connect_ret h)) None\<rparr>
      else if write8_ret h \<noteq> 0 then
        \<lparr>trace = [Service_connect 0x4024, Data_write8 0x00],
         outcome = Returned (Transport_error (write8_ret h)) None\<rparr>
      else (let tr = [Service_connect 0x4024, Data_write8 0x00, Data_read]
            in case reads h of
                 [] \<Rightarrow> \<lparr>trace = tr, outcome = Script_ended\<rparr>
               | (r, buffer) # script \<Rightarrow>
                   if r \<noteq> 0 then finish tr False (Transport_error r) None
                   else (case scan_header buffer of
                           None \<Rightarrow> finish tr False Scan_error None
                         | Some hdr \<Rightarrow> receive_image h tr script hdr)))"

text \<open>
  The reassembly in the words of the spec: from each packet, in order, the bytes from
  offset 1 on, as many as the smaller of what is still to come and \<open>maxsize\<close>.
\<close>

fun packet_slices :: "nat \<Rightarrow> nat \<Rightarrow> byte list list \<Rightarrow> byte list list" where
  "packet_slices maxsize remaining [] = []"
| "packet_slices maxsize remaining (p # ps) =
     take (min remaining maxsize) (drop 1 p)
       # packet_slices maxsize (remaining - min remaining maxsize) ps"

text \<open>The number of bytes the spec takes from each of the first \<open>k\<close> packets.\<close>

fun slice_lengths :: "nat \<Rightarrow> nat \<Rightarrow> nat \<Rightarrow> nat list" where
  "slice_lengths maxsize remaining 0 = []"
| "slice_lengths maxsize remaining (Suc k) =
     min remaining maxsize # slice_lengths maxsize (remaining - min remaining maxsize) k"

section \<open>Properties of the decoder\<close>

lemma repeat_loop_unfold:
  "repeat_loop rs inb k st =
     (if k = 0 then Some st
      else if out_size st < rs then Some st
      else case memcpy (out_buf st) (out_pos st) inb (in_pos st) rs of
             None \<Rightarrow> None
           | Some ob \<Rightarrow>
               repeat_loop rs inb (k - 1)
                 (st\<lparr>out_size := out_size st - rs,
                     out_pos := out_pos st + rs,
                     out_buf := ob\<rparr>))"
  by (cases k) (simp_all split: option.splits)

lemma memcpy_in_bounds:
  "d + n \<le> length dst \<Longrightarrow> s + n \<le> length src \<Longrightarrow>
   memcpy dst d src s n = Some (take d dst @ take n (drop s src) @ drop (d + n) dst)"
  by (simp add: memcpy_def)

lemma take_prefix_length: "length ys = n \<Longrightarrow> take n (ys @ zs) = ys"
  by simp

lemma drop_prefix_length: "length ys = n \<Longrightarrow> drop (n + m) (ys @ zs) = drop m zs"
  by simp

lemma overwrite_twice:
  assumes "d + length xs \<le> length dst"
  shows "take (d + length xs) (take d dst @ xs @ drop (d + length xs) dst) = take d dst @ xs"
    and "drop (d + length xs + m) (take d dst @ xs @ drop (d + length xs) dst)
           = drop (d + length xs + m) dst"
proof -
  have l: "length (take d dst @ xs) = d + length xs"
    using assms by simp
  show "take (d + length xs) (take d dst @ xs @ drop (d + length xs) dst) = take d dst @ xs"
    using take_prefix_length [OF l, of "drop (d + length xs) dst"] by simp
  show "drop (d + length xs + m) (take d dst @ xs @ drop (d + length xs) dst)
           = drop (d + length xs + m) dst"
    using drop_prefix_length [OF l, of m "drop (d + length xs) dst"] by (simp add: add.commute)
qed

lemma repeat_loop_result:
  fixes st :: rle_state
  assumes "in_pos st + rs \<le> length inb"
    and "out_pos st + out_size st = length (out_buf st)"
  shows "repeat_loop rs inb c st =
           Some (st\<lparr>out_size := out_size st - min c (out_size st div rs) * rs,
                    out_pos := out_pos st + min c (out_size st div rs) * rs,
                    out_buf := take (out_pos st) (out_buf st)
                       @ concat (replicate (min c (out_size st div rs)) (take rs (drop (in_pos st) inb)))
                       @ drop (out_pos st + min c (out_size st div rs) * rs) (out_buf st)\<rparr>)"
  using assms
proof (induction c arbitrary: st)
  case 0
  then show ?case by simp
next
  case (Suc c)
  let ?grp = "take rs (drop (in_pos st) inb)"
  have lg: "length ?grp = rs" using Suc.prems by simp
  show ?case
  proof (cases "out_size st < rs")
    case True
    then have "out_size st div rs = 0" by simp
    with True show ?thesis by simp
  next
    case False
    then have le: "rs \<le> out_size st" by simp
    let ?ob = "take (out_pos st) (out_buf st) @ ?grp @ drop (out_pos st + rs) (out_buf st)"
    let ?st2 = "st\<lparr>out_size := out_size st - rs, out_pos := out_pos st + rs, out_buf := ?ob\<rparr>"
    have mc: "memcpy (out_buf st) (out_pos st) inb (in_pos st) rs = Some ?ob"
      using Suc.prems le by (simp add: memcpy_def)
    have p1: "in_pos ?st2 + rs \<le> length inb" using Suc.prems by simp
    have p2: "out_pos ?st2 + out_size ?st2 = length (out_buf ?st2)"
      using Suc.prems le lg by simp
    note ih = Suc.IH [OF p1 p2]
    have bound: "out_pos st + length ?grp \<le> length (out_buf st)"
      using Suc.prems le lg by simp
    show ?thesis
    proof (cases "rs = 0")
      case True
      with False mc ih show ?thesis by simp
    next
      case rs: False
      have d: "out_size st div rs = Suc ((out_size st - rs) div rs)"
        using le rs by (simp add: le_div_geq)
      let ?k2 = "min c ((out_size st - rs) div rs)"
      have k: "min (Suc c) (out_size st div rs) = Suc ?k2" by (simp add: d)
      have t: "take (out_pos st + rs) ?ob = take (out_pos st) (out_buf st) @ ?grp"
        using overwrite_twice(1) [OF bound] lg by simp
      have dr: "drop (out_pos st + rs + ?k2 * rs) ?ob
                  = drop (out_pos st + rs + ?k2 * rs) (out_buf st)"
        using overwrite_twice(2) [OF bound, of "?k2 * rs"] lg by simp
      have "repeat_loop rs inb (Suc c) st = repeat_loop rs inb c ?st2"
        using False mc by simp
      also have "\<dots> = Some (?st2\<lparr>out_size := out_size ?st2 - ?k2 * rs,
                    out_pos := out_pos ?st2 + ?k2 * rs,
                    out_buf := take (out_pos ?st2) (out_buf ?st2)
                       @ concat (replicate ?k2 (take rs (drop (in_pos ?st2) inb)))
                       @ drop (out_pos ?st2 + ?k2 * rs) (out_buf ?st2)\<rparr>)"
        using ih by simp
      finally show ?thesis
        unfolding k using t dr by (simp add: add.assoc)
    qed
  qed
qed


lemma literal_run_result:
  fixes st :: rle_state
  assumes "in_pos st + in_size st = length inb"
    and "out_pos st + out_size st = length (out_buf st)"
  shows "literal_run rs inb len st =
           Continue \<lparr>in_pos = in_pos st + min (nat (- len + 1) * rs) (min (out_size st) (in_size st)),
                     in_size = in_size st - min (nat (- len + 1) * rs) (min (out_size st) (in_size st)),
                     out_pos = out_pos st + min (nat (- len + 1) * rs) (min (out_size st) (in_size st)),
                     out_size = out_size st - min (nat (- len + 1) * rs) (min (out_size st) (in_size st)),
                     out_buf = take (out_pos st) (out_buf st)
                        @ take (min (nat (- len + 1) * rs) (min (out_size st) (in_size st)))
                            (drop (in_pos st) inb)
                        @ drop (out_pos st + min (nat (- len + 1) * rs) (min (out_size st) (in_size st)))
                            (out_buf st)\<rparr>"
proof -
  let ?n = "min (nat (- len + 1) * rs) (min (out_size st) (in_size st))"
  let ?len1 = "nat (- len + 1) * rs"
  let ?len2 = "if ?len1 < out_size st then ?len1 else out_size st"
  have n: "(if ?len2 < in_size st then ?len2 else in_size st) = ?n"
    by (simp add: min_def)
  have "memcpy (out_buf st) (out_pos st) inb (in_pos st) ?n
          = Some (take (out_pos st) (out_buf st) @ take ?n (drop (in_pos st) inb)
                    @ drop (out_pos st + ?n) (out_buf st))"
    using assms by (intro memcpy_in_bounds) simp_all
  then show ?thesis
    unfolding literal_run_def Let_def n by simp
qed

lemma rle_body_literal:
  fixes st :: rle_state
  assumes "rle_inv inb st" and "1 < in_size st" and "out_size st \<noteq> 0"
    and "sint (inb ! in_pos st) < 0"
  shows "let n = min (nat (- sint (inb ! in_pos st) + 1) * rs)
                   (min (out_size st) (in_size st - 1))
         in rle_body rs inb st =
              Continue \<lparr>in_pos = in_pos st + 1 + n,
                        in_size = in_size st - 1 - n,
                        out_pos = out_pos st + n,
                        out_size = out_size st - n,
                        out_buf = take (out_pos st) (out_buf st)
                           @ take n (drop (in_pos st + 1) inb)
                           @ drop (out_pos st + n) (out_buf st)\<rparr>
            \<and> length (take n (drop (in_pos st + 1) inb)) = n
            \<and> n \<le> in_size st - 1 \<and> n \<le> out_size st"
proof -
  let ?st1 = "st\<lparr>in_pos := in_pos st + 1, in_size := in_size st - 1\<rparr>"
  have rd: "in_pos st < length inb"
    using assms by (auto simp: rle_inv_def)
  have i1: "in_pos ?st1 + in_size ?st1 = length inb"
    using assms by (auto simp: rle_inv_def)
  have i2: "out_pos ?st1 + out_size ?st1 = length (out_buf ?st1)"
    using assms by (auto simp: rle_inv_def)
  let ?n = "min (nat (- sint (inb ! in_pos st) + 1) * rs) (min (out_size st) (in_size st - 1))"
  have "rle_body rs inb st = literal_run rs inb (sint (inb ! in_pos st)) ?st1"
    using rd assms(4) by (simp add: rle_body_def Let_def)
  then have body: "rle_body rs inb st =
       Continue \<lparr>in_pos = in_pos st + 1 + ?n, in_size = in_size st - 1 - ?n,
                 out_pos = out_pos st + ?n, out_size = out_size st - ?n,
                 out_buf = take (out_pos st) (out_buf st) @ take ?n (drop (in_pos st + 1) inb)
                    @ drop (out_pos st + ?n) (out_buf st)\<rparr>"
    using literal_run_result [OF i1 i2, of rs "sint (inb ! in_pos st)"] by simp
  have "in_pos st + 1 + ?n \<le> length inb"
    using assms(1,2) by (auto simp: rle_inv_def)
  then have len: "length (take ?n (drop (in_pos st + 1) inb)) = ?n"
    by simp
  have b1: "?n \<le> in_size st - 1" and b2: "?n \<le> out_size st"
    by simp_all
  show ?thesis
    unfolding Let_def using body len b1 b2 by blast
qed

lemma rle_body_repeat:
  fixes st :: rle_state
  assumes "rle_inv inb st" and "1 < in_size st" and "out_size st \<noteq> 0"
    and "0 \<le> sint (inb ! in_pos st)" and "rs \<le> in_size st - 1"
  shows "let k = min (nat (sint (inb ! in_pos st) + 1)) (out_size st div rs);
             grp = take rs (drop (in_pos st + 1) inb)
         in rle_body rs inb st =
              Continue \<lparr>in_pos = in_pos st + 1 + rs,
                        in_size = in_size st - 1 - rs,
                        out_pos = out_pos st + k * rs,
                        out_size = out_size st - k * rs,
                        out_buf = take (out_pos st) (out_buf st)
                           @ concat (replicate k grp)
                           @ drop (out_pos st + k * rs) (out_buf st)\<rparr>
            \<and> length grp = rs \<and> k * rs \<le> out_size st"
proof -
  let ?st1 = "st\<lparr>in_pos := in_pos st + 1, in_size := in_size st - 1\<rparr>"
  have rd: "in_pos st < length inb"
    using assms by (auto simp: rle_inv_def)
  have i1: "in_pos ?st1 + rs \<le> length inb"
    using assms by (auto simp: rle_inv_def)
  have i2: "out_pos ?st1 + out_size ?st1 = length (out_buf ?st1)"
    using assms by (auto simp: rle_inv_def)
  have "min (nat (sint (inb ! in_pos st) + 1)) (out_size st div rs) * rs
          \<le> (out_size st div rs) * rs"
    by (intro mult_le_mono1) simp
  then have kb: "min (nat (sint (inb ! in_pos st) + 1)) (out_size st div rs) * rs \<le> out_size st"
    by (rule order_trans) simp
  let ?k = "min (nat (sint (inb ! in_pos st) + 1)) (out_size st div rs)"
  let ?grp = "take rs (drop (in_pos st + 1) inb)"
  have body: "rle_body rs inb st =
       Continue \<lparr>in_pos = in_pos st + 1 + rs, in_size = in_size st - 1 - rs,
                 out_pos = out_pos st + ?k * rs, out_size = out_size st - ?k * rs,
                 out_buf = take (out_pos st) (out_buf st) @ concat (replicate ?k ?grp)
                    @ drop (out_pos st + ?k * rs) (out_buf st)\<rparr>"
    using rd assms(4,5) repeat_loop_result [OF i1 i2, of "nat (sint (inb ! in_pos st) + 1)"]
    by (simp add: rle_body_def Let_def)
  have len: "length ?grp = rs"
    using i1 by simp
  show ?thesis
    unfolding Let_def using body len kb by blast
qed

lemma rle_loop_truncated:
  fixes st :: rle_state
  assumes "rle_inv inb st" and "1 < in_size st" and "out_size st \<noteq> 0"
    and "0 \<le> sint (inb ! in_pos st)" and "in_size st - 1 < rs"
  shows "rle_loop rs inb st = Some (st\<lparr>in_pos := in_pos st + 1, in_size := in_size st - 1\<rparr>)"
proof -
  have rd: "in_pos st < length inb"
    using assms by (auto simp: rle_inv_def)
  have "rle_body rs inb st = Return (st\<lparr>in_pos := in_pos st + 1, in_size := in_size st - 1\<rparr>)"
    using rd assms(4,5) by (simp add: rle_body_def Let_def)
  then show ?thesis
    using assms(2,3) by (simp add: rle_loop.simps)
qed


lemma rle_body_cases:
  fixes st :: rle_state
  assumes inv: "rle_inv inb st" and run: "1 < in_size st" "out_size st \<noteq> 0"
  shows "(\<exists>st'. rle_body rs inb st = Continue st' \<and> rle_inv inb st'
              \<and> length (out_buf st') = length (out_buf st))
         \<or> (rle_body rs inb st = Return (st\<lparr>in_pos := in_pos st + 1, in_size := in_size st - 1\<rparr>)
              \<and> 0 \<le> sint (inb ! in_pos st) \<and> in_size st - 1 < rs)"
proof (cases "sint (inb ! in_pos st) < 0")
  case True
  define n where "n = min (nat (- sint (inb ! in_pos st) + 1) * rs)
                        (min (out_size st) (in_size st - 1))"
  define st' where "st' = \<lparr>in_pos = in_pos st + 1 + n, in_size = in_size st - 1 - n,
      out_pos = out_pos st + n, out_size = out_size st - n,
      out_buf = take (out_pos st) (out_buf st) @ take n (drop (in_pos st + 1) inb)
         @ drop (out_pos st + n) (out_buf st)\<rparr>"
  from rle_body_literal [OF inv run True, of rs]
  have body: "rle_body rs inb st = Continue st'"
    and len: "length (take n (drop (in_pos st + 1) inb)) = n"
    and b1: "n \<le> in_size st - 1" and b2: "n \<le> out_size st"
    unfolding Let_def n_def st'_def by blast+
  have eqs: "in_pos st + in_size st = length inb" "out_pos st + out_size st = length (out_buf st)"
    using inv by (simp_all add: rle_inv_def)
  have l: "length (out_buf st') = length (out_buf st)"
    unfolding st'_def using len b2 eqs(2) by simp
  have "in_pos st' + in_size st' = length inb"
    unfolding st'_def using b1 run(1) eqs(1) by simp
  moreover have "out_pos st' + out_size st' = length (out_buf st)"
    unfolding st'_def using b2 eqs(2) by simp
  ultimately have "rle_inv inb st'"
    using l by (simp add: rle_inv_def)
  with body l show ?thesis by blast
next
  case False
  then have nonneg: "0 \<le> sint (inb ! in_pos st)" by simp
  show ?thesis
  proof (cases "in_size st - 1 < rs")
    case True
    have rd: "in_pos st < length inb"
      using inv run by (auto simp: rle_inv_def)
    have "rle_body rs inb st = Return (st\<lparr>in_pos := in_pos st + 1, in_size := in_size st - 1\<rparr>)"
      using rd nonneg True by (simp add: rle_body_def Let_def)
    with nonneg True show ?thesis by blast
  next
    case False
    then have le: "rs \<le> in_size st - 1" by simp
    define k where "k = min (nat (sint (inb ! in_pos st) + 1)) (out_size st div rs)"
    define grp where "grp = take rs (drop (in_pos st + 1) inb)"
    define st' where "st' = \<lparr>in_pos = in_pos st + 1 + rs, in_size = in_size st - 1 - rs,
      out_pos = out_pos st + k * rs, out_size = out_size st - k * rs,
      out_buf = take (out_pos st) (out_buf st) @ concat (replicate k grp)
         @ drop (out_pos st + k * rs) (out_buf st)\<rparr>"
    from rle_body_repeat [OF inv run nonneg le]
    have body: "rle_body rs inb st = Continue st'"
      and len: "length grp = rs" and kb: "k * rs \<le> out_size st"
      unfolding Let_def k_def grp_def st'_def by blast+
    have eqs: "in_pos st + in_size st = length inb" "out_pos st + out_size st = length (out_buf st)"
      using inv by (simp_all add: rle_inv_def)
    have lc: "length (concat (replicate k grp)) = k * rs"
      using len by (induction k) simp_all
    have l: "length (out_buf st') = length (out_buf st)"
      unfolding st'_def using lc kb eqs(2) by simp
    have "in_pos st' + in_size st' = length inb"
      unfolding st'_def using le run(1) eqs(1) by simp
    moreover have "out_pos st' + out_size st' = length (out_buf st)"
      unfolding st'_def using kb eqs(2) by simp
    ultimately have "rle_inv inb st'"
      using l by (simp add: rle_inv_def)
    with body l show ?thesis by blast
  qed
qed

lemma rle_loop_total:
  fixes st :: rle_state
  assumes "rle_inv inb st"
  shows "\<exists>st'. rle_loop rs inb st = Some st' \<and> rle_inv inb st'
           \<and> length (out_buf st') = length (out_buf st)
           \<and> (in_size st' < 2 \<or> out_size st' = 0
               \<or> (in_size st' < rs \<and> 0 < in_pos st' \<and> 0 \<le> sint (inb ! (in_pos st' - 1))))"
  using assms
proof (induction rs inb st rule: rle_loop.induct)
  case (1 rs inb st)
  show ?case
  proof (cases "1 < in_size st \<and> out_size st \<noteq> 0")
    case False
    then have "rle_loop rs inb st = Some st"
      by (subst rle_loop.simps) auto
    with False "1.prems" show ?thesis by auto
  next
    case True
    then have run: "1 < in_size st" "out_size st \<noteq> 0" by simp_all
    from rle_body_cases [OF "1.prems" run, of rs] show ?thesis
    proof (elim disjE exE conjE)
      fix st'
      assume b: "rle_body rs inb st = Continue st'" and i: "rle_inv inb st'"
        and l: "length (out_buf st') = length (out_buf st)"
      have "rle_loop rs inb st = rle_loop rs inb st'"
        using True b by (simp add: rle_loop.simps)
      with "1.IH" [OF True b i] l show ?thesis by simp
    next
      let ?st1 = "st\<lparr>in_pos := in_pos st + 1, in_size := in_size st - 1\<rparr>"
      assume b: "rle_body rs inb st = Return ?st1"
        and c: "0 \<le> sint (inb ! in_pos st)" and t: "in_size st - 1 < rs"
      have r: "rle_loop rs inb st = Some ?st1"
        using True b by (simp add: rle_loop.simps)
      have "rle_inv inb ?st1"
        using "1.prems" run by (auto simp: rle_inv_def)
      with r c t show ?thesis by simp
    qed
  qed
qed

lemma rle_init_inv: "rle_inv inb (rle_init outb (length inb) (length outb))"
  by (simp add: rle_inv_def rle_init_def)

subsection \<open>The literal branch\<close>

text \<open>
  Claim C2. In a state of the loop with at least two input bytes and some output space
  left, a control byte that is negative as a signed value makes one pass through the body
  copy exactly \<open>n\<close> bytes, where \<open>n\<close> is the smallest of \<open>(-code + 1) * unit\<close>, the
  remaining output space and the input remaining after the control byte. The bytes come
  from the input position after the control byte and go to the current output position;
  nothing else in the output changes. Both cursors advance by \<open>n\<close> and both countdown
  lengths fall by \<open>n\<close>, on the input side in addition to the one byte of the control
  byte itself.
\<close>

theorem literal_step:
  fixes st :: rle_state
  assumes "rle_inv inb st" and "1 < in_size st" and "out_size st \<noteq> 0"
    and "sint (inb ! in_pos st) < 0"
  shows "let n = min (nat (- sint (inb ! in_pos st) + 1) * rs)
                   (min (out_size st) (in_size st - 1))
         in rle_body rs inb st =
              Continue \<lparr>in_pos = in_pos st + 1 + n,
                        in_size = in_size st - 1 - n,
                        out_pos = out_pos st + n,
                        out_size = out_size st - n,
                        out_buf = take (out_pos st) (out_buf st)
                           @ take n (drop (in_pos st + 1) inb)
                           @ drop (out_pos st + n) (out_buf st)\<rparr>
            \<and> length (take n (drop (in_pos st + 1) inb)) = n
            \<and> n \<le> in_size st - 1 \<and> n \<le> out_size st"
  using assms by (rule rle_body_literal)

theorem literal_step_witness:
  "rle_inv [0xFF, 1, 2, 3] (rle_init [9, 9, 9] 4 3)
   \<and> 1 < in_size (rle_init [9, 9, 9] 4 3)
   \<and> out_size (rle_init [9, 9, 9] 4 3) \<noteq> 0
   \<and> sint ([0xFF, 1, 2, 3 :: byte] ! in_pos (rle_init [9, 9, 9] 4 3)) < 0
   \<and> rle_body 1 [0xFF, 1, 2, 3] (rle_init [9, 9, 9] 4 3) =
        Continue \<lparr>in_pos = 3, in_size = 1, out_pos = 2, out_size = 1, out_buf = [1, 2, 9]\<rparr>"
  using literal_step [of "[0xFF, 1, 2, 3]" "rle_init [9, 9, 9] 4 3" 1]
  by (simp add: rle_inv_def rle_init_def Let_def)

subsection \<open>The repeat branch\<close>

text \<open>
  Claim C3. In a state of the loop with at least two input bytes and some output space
  left, a control byte \<open>code \<ge> 0\<close> with at least \<open>unit\<close> input bytes after it makes one
  pass through the body write \<open>k = min (code + 1) (out_size div unit)\<close> copies of the
  group of \<open>unit\<close> bytes that follows the control byte, one after the other from the
  current output position. The output cursor and the output countdown move by
  \<open>k * unit\<close>; the input cursor moves past the control byte and then by \<open>unit\<close>, once,
  whatever \<open>k\<close> is. (When \<open>unit\<close> is 0 the group is empty and any number of copies of
  it writes nothing.)
\<close>

theorem repeat_step:
  fixes st :: rle_state
  assumes "rle_inv inb st" and "1 < in_size st" and "out_size st \<noteq> 0"
    and "0 \<le> sint (inb ! in_pos st)" and "rs \<le> in_size st - 1"
  shows "let k = min (nat (sint (inb ! in_pos st) + 1)) (out_size st div rs);
             grp = take rs (drop (in_pos st + 1) inb)
         in rle_body rs inb st =
              Continue \<lparr>in_pos = in_pos st + 1 + rs,
                        in_size = in_size st - 1 - rs,
                        out_pos = out_pos st + k * rs,
                        out_size = out_size st - k * rs,
                        out_buf = take (out_pos st) (out_buf st)
                           @ concat (replicate k grp)
                           @ drop (out_pos st + k * rs) (out_buf st)\<rparr>
            \<and> length grp = rs \<and> k * rs \<le> out_size st"
  using assms by (rule rle_body_repeat)

theorem repeat_step_witness:
  "rle_inv [0x02, 0xAA, 0xBB, 7] (rle_init [9, 9, 9, 9, 9] 4 5)
   \<and> 1 < in_size (rle_init [9, 9, 9, 9, 9] 4 5)
   \<and> out_size (rle_init [9, 9, 9, 9, 9] 4 5) \<noteq> 0
   \<and> 0 \<le> sint ([0x02, 0xAA, 0xBB, 7 :: byte] ! in_pos (rle_init [9, 9, 9, 9, 9] 4 5))
   \<and> 2 \<le> in_size (rle_init [9, 9, 9, 9, 9] 4 5) - 1
   \<and> rle_body 2 [0x02, 0xAA, 0xBB, 7] (rle_init [9, 9, 9, 9, 9] 4 5) =
        Continue \<lparr>in_pos = 3, in_size = 1, out_pos = 4, out_size = 1,
                  out_buf = [0xAA, 0xBB, 0xAA, 0xBB, 9]\<rparr>"
proof -
  have twice: "replicate 2 xs = [xs, xs]" for xs :: "byte list"
    by (simp add: numeral_2_eq_2)
  show ?thesis
    using repeat_step [of "[0x02, 0xAA, 0xBB, 7]" "rle_init [9, 9, 9, 9, 9] 4 5" 2]
    by (simp add: rle_inv_def rle_init_def Let_def twice)
qed

text \<open>
  Claim C7. When the control byte is \<open>code \<ge> 0\<close> and fewer than \<open>unit\<close> bytes remain
  in the input after it, the function returns at once: the result is the state after the
  control byte has been consumed, with the output buffer, the output cursor and the output
  countdown as they were. The model has no error value for this exit.
\<close>

theorem truncated_repeat_stops:
  fixes st :: rle_state
  assumes "rle_inv inb st" and "1 < in_size st" and "out_size st \<noteq> 0"
    and "0 \<le> sint (inb ! in_pos st)" and "in_size st - 1 < rs"
  shows "rle_loop rs inb st = Some (st\<lparr>in_pos := in_pos st + 1, in_size := in_size st - 1\<rparr>)"
  using assms by (rule rle_loop_truncated)

theorem truncated_repeat_stops_witness:
  "rle_inv [0x05, 0xAA, 0xBB, 0xCC] (rle_init [9, 9, 9, 9, 9, 9, 9, 9] 4 8)
   \<and> 1 < in_size (rle_init [9, 9, 9, 9, 9, 9, 9, 9] 4 8)
   \<and> out_size (rle_init [9, 9, 9, 9, 9, 9, 9, 9] 4 8) \<noteq> 0
   \<and> 0 \<le> sint ([0x05, 0xAA, 0xBB, 0xCC :: byte] ! in_pos (rle_init [9, 9, 9, 9, 9, 9, 9, 9] 4 8))
   \<and> in_size (rle_init [9, 9, 9, 9, 9, 9, 9, 9] 4 8) - 1 < 4
   \<and> rle_loop 4 [0x05, 0xAA, 0xBB, 0xCC] (rle_init [9, 9, 9, 9, 9, 9, 9, 9] 4 8) =
        Some \<lparr>in_pos = 1, in_size = 3, out_pos = 0, out_size = 8,
              out_buf = [9, 9, 9, 9, 9, 9, 9, 9]\<rparr>"
  using truncated_repeat_stops [of "[0x05, 0xAA, 0xBB, 0xCC]"
          "rle_init [9, 9, 9, 9, 9, 9, 9, 9] 4 8" 4]
  by (simp add: rle_inv_def rle_init_def)

subsection \<open>Termination and bounds\<close>

text \<open>
  Claim C9. \<open>rle_loop\<close> is a total function: its recursion is justified by the input
  countdown, which every pass through the body lowers. Called with the lengths of its two
  buffers, whatever the bit depth and the contents, the decoder returns, and the state in
  which it returns has fewer than two input bytes left, or no output space left, or was
  reached by the \<^verbatim>\<open>return\<close> of the repeat branch: the byte just consumed is a control
  byte \<open>code \<ge> 0\<close> and fewer than \<open>unit\<close> input bytes remain. In every other state
  the body runs to its end and the loop goes on (\<open>rle_body_cases\<close>).
\<close>

theorem rle_decode_terminates:
  "\<exists>st'. rle_loop (rle_size bpp) inb (rle_init outb (length inb) (length outb)) = Some st'
     \<and> (in_size st' < 2 \<or> out_size st' = 0
         \<or> (in_size st' < rle_size bpp \<and> 0 < in_pos st' \<and> 0 \<le> sint (inb ! (in_pos st' - 1))))"
  using rle_loop_total [OF rle_init_inv [of inb outb], of "rle_size bpp"] by blast

text \<open>
  Claim C10. In the model every read of the input and every copy is checked against the
  buffers, and an access outside them ends the run with \<open>None\<close>. With an input buffer of
  \<open>in_size\<close> bytes and an output buffer of \<open>out_size\<close> bytes the decoder never takes that
  exit, for any bit depth: all reads lie in the first \<open>in_size\<close> bytes of the input
  and all writes in the first \<open>out_size\<close> bytes of the output, whose length is unchanged.
\<close>

theorem rle_decode_in_bounds:
  "\<exists>out'. rle_decode bpp inb outb (length inb) (length outb) = Some out'
     \<and> length out' = length outb"
proof -
  obtain st' where "rle_loop (rle_size bpp) inb (rle_init outb (length inb) (length outb)) = Some st'"
    and "length (out_buf st') = length (out_buf (rle_init outb (length inb) (length outb)))"
    using rle_loop_total [OF rle_init_inv [of inb outb], of "rle_size bpp"] by blast
  then show ?thesis
    by (simp add: rle_decode_def rle_init_def)
qed

subsection \<open>A worked example\<close>

text \<open>
  Claim C8. With 8 bits per pixel the unit is 2 bytes. Decoding the six bytes
  \<open>00 AA BB FE 11 22\<close> into an output buffer of eight bytes writes \<open>AA BB 11 22\<close> to
  the first four positions: control byte 0 emits one copy of \<open>AA BB\<close>, control byte
  \<open>-2\<close> asks for six literal bytes and is clamped to the two that remain. The last four
  bytes of the output keep whatever they held before the call.
\<close>

theorem rle_decode_scenario:
  "rle_decode 8 [0x00, 0xAA, 0xBB, 0xFE, 0x11, 0x22] [o0, o1, o2, o3, o4, o5, o6, o7] 6 8
     = Some [0xAA, 0xBB, 0x11, 0x22, o4, o5, o6, o7]"
  by (simp add: rle_decode_def rle_init_def rle_size_def rle_loop.simps rle_body_def
      literal_run_def memcpy_def Let_def repeat_loop_unfold)

subsection \<open>Round trip through literal runs\<close>

lemma units_bounds:
  fixes rs m :: nat
  assumes "0 < rs" and "0 < m" and "m \<le> 129 * rs"
  shows "2 \<le> max 2 ((m + rs - 1) div rs)"
    and "max 2 ((m + rs - 1) div rs) \<le> 129"
    and "m \<le> max 2 ((m + rs - 1) div rs) * rs"
    and "m = 129 * rs \<Longrightarrow> max 2 ((m + rs - 1) div rs) = 129"
proof -
  show "2 \<le> max 2 ((m + rs - 1) div rs)" by simp
  have "m + rs - 1 < 130 * rs" using assms by simp
  then have "(m + rs - 1) div rs < 130"
    using assms(1) by (simp add: div_less_iff_less_mult)
  then show "max 2 ((m + rs - 1) div rs) \<le> 129" by simp
  have "m + rs - 1 < rs + ((m + rs - 1) div rs) * rs"
    using assms(1) by (rule dividend_less_div_times)
  then have "m \<le> ((m + rs - 1) div rs) * rs"
    using assms(1,2) by linarith
  also have "\<dots> \<le> max 2 ((m + rs - 1) div rs) * rs"
    by (intro mult_le_mono1) simp
  finally show "m \<le> max 2 ((m + rs - 1) div rs) * rs" .
  show "max 2 ((m + rs - 1) div rs) = 129" if "m = 129 * rs"
  proof -
    have e: "m + rs - 1 = 129 * rs + (rs - 1)"
      using that assms(1) by linarith
    have "(m + rs - 1) div rs = 129 + (rs - 1) div rs"
      unfolding e using assms(1) by (intro div_mult_self3) simp
    also have "(rs - 1) div rs = 0"
      using assms(1) by simp
    finally show ?thesis by simp
  qed
qed


lemma sint_control:
  fixes u :: nat
  assumes "2 \<le> u" and "u \<le> 129"
  shows "sint (word_of_int (1 - int u) :: byte) = 1 - int u"
proof -
  have "sint (word_of_int (1 - int u) :: byte) = signed_take_bit (LENGTH(8) - 1) (1 - int u)"
    by (rule sint_sbintrunc')
  also have "\<dots> = 1 - int u"
    using assms by (intro signed_take_bit_int_eq_self) simp_all
  finally show ?thesis .
qed

lemma literal_encode_nonempty:
  assumes "0 < rs" and "raw \<noteq> []"
  shows "literal_encode rs raw =
           word_of_int (1 - int (max 2 ((length (take (129 * rs) raw) + rs - 1) div rs)))
             # take (129 * rs) raw @ literal_encode rs (drop (129 * rs) raw)"
  using assms by (subst literal_encode.simps) (simp add: Let_def)

lemma literal_encode_empty: "literal_encode rs [] = []"
  by (subst literal_encode.simps) simp

lemma rle_loop_literal_encode:
  fixes st :: rle_state
  assumes "0 < rs" and "rle_inv inb st"
    and "drop (in_pos st) inb = literal_encode rs raw"
    and "out_size st = length raw"
  shows "\<exists>st'. rle_loop rs inb st = Some st'
           \<and> out_buf st' = take (out_pos st) (out_buf st) @ raw"
  using assms(2-)
proof (induction "length raw" arbitrary: raw st rule: less_induct)
  case less
  have eqs: "in_pos st + in_size st = length inb"
     "out_pos st + out_size st = length (out_buf st)"
    using less.prems(1) by (simp_all add: rle_inv_def)
  show ?case
  proof (cases "raw = []")
    case True
    then have "out_size st = 0" using less.prems(3) by simp
    then have "rle_loop rs inb st = Some st"
      by (subst rle_loop.simps) simp
    moreover have "take (out_pos st) (out_buf st) = out_buf st"
      using eqs(2) \<open>out_size st = 0\<close> by simp
    ultimately show ?thesis using True by simp
  next
    case False
    define run where "run = take (129 * rs) raw"
    define rest where "rest = drop (129 * rs) raw"
    define u where "u = max 2 ((length run + rs - 1) div rs)"
    have raw: "raw = run @ rest"
      by (simp add: run_def rest_def)
    have run_pos: "0 < length run"
      using False assms(1) by (simp add: run_def)
    have run_le: "length run \<le> 129 * rs"
      by (simp add: run_def)
    note ub = units_bounds [OF assms(1) run_pos run_le, folded u_def]
    have enc: "drop (in_pos st) inb = word_of_int (1 - int u) # run @ literal_encode rs rest"
      using less.prems(2) literal_encode_nonempty [OF assms(1) False]
      by (simp add: run_def rest_def u_def)
    have len_enc: "in_size st = 1 + length run + length (literal_encode rs rest)"
    proof -
      have "length (drop (in_pos st) inb) = in_size st" using eqs(1) by simp
      then show ?thesis unfolding enc by simp
    qed
    have run1: "1 < in_size st" using len_enc run_pos by simp
    have run2: "out_size st \<noteq> 0" using less.prems(3) False by simp
    have rd: "in_pos st < length inb" using eqs(1) run1 by simp
    have ctl: "inb ! in_pos st = word_of_int (1 - int u)"
      using enc rd by (metis hd_drop_conv_nth list.sel(1))
    have code: "sint (inb ! in_pos st) = 1 - int u"
      unfolding ctl using ub(1,2) by (rule sint_control)
    have neg: "sint (inb ! in_pos st) < 0"
      using code ub(1) by simp
    have after: "drop (in_pos st + 1) inb = run @ literal_encode rs rest"
    proof -
      have "drop (in_pos st + 1) inb = drop 1 (drop (in_pos st) inb)" by (simp add: add.commute)
      then show ?thesis unfolding enc by simp
    qed
    have units: "nat (- sint (inb ! in_pos st) + 1) * rs = u * rs"
      using code by simp
    have n: "min (nat (- sint (inb ! in_pos st) + 1) * rs) (min (out_size st) (in_size st - 1))
               = length run"
    proof (cases "rest = []")
      case True
      then have "literal_encode rs rest = []" by (simp add: literal_encode_empty)
      then have "in_size st - 1 = length run" using len_enc by simp
      moreover have "out_size st = length run" using less.prems(3) raw True by simp
      ultimately show ?thesis unfolding units using ub(3) by simp
    next
      case False
      then have "129 * rs < length raw" by (simp add: rest_def)
      then have full: "length run = 129 * rs" by (simp add: run_def)
      then have "u = 129" using ub(4) by simp
      moreover have "length run \<le> out_size st" using less.prems(3) raw by simp
      moreover have "length run \<le> in_size st - 1" using len_enc by simp
      ultimately show ?thesis unfolding units using full by simp
    qed
    define st' where "st' = \<lparr>in_pos = in_pos st + 1 + length run,
        in_size = in_size st - 1 - length run,
        out_pos = out_pos st + length run, out_size = out_size st - length run,
        out_buf = take (out_pos st) (out_buf st) @ run
           @ drop (out_pos st + length run) (out_buf st)\<rparr>"
    have body: "rle_body rs inb st = Continue st'"
      using rle_body_literal [OF less.prems(1) run1 run2 neg, of rs]
      unfolding Let_def n st'_def after by simp
    have loop: "rle_loop rs inb st = rle_loop rs inb st'"
      using run1 run2 body by (subst rle_loop.simps) simp
    have out_le: "out_pos st + length run \<le> length (out_buf st)"
      using eqs(2) less.prems(3) raw by simp
    have inv': "rle_inv inb st'"
      using eqs len_enc out_le less.prems(3) raw by (simp add: rle_inv_def st'_def)
    have in': "drop (in_pos st') inb = literal_encode rs rest"
    proof -
      have "drop (in_pos st') inb = drop (length run) (drop (in_pos st + 1) inb)"
        by (simp add: st'_def add.commute)
      then show ?thesis unfolding after by simp
    qed
    have out': "out_size st' = length rest"
      using less.prems(3) raw by (simp add: st'_def)
    have smaller: "length rest < length raw"
      using raw run_pos by simp
    obtain st'' where fin: "rle_loop rs inb st' = Some st''"
      and buf: "out_buf st'' = take (out_pos st') (out_buf st') @ rest"
      using less.hyps [OF smaller inv' in' out'] by blast
    have "take (out_pos st') (out_buf st') = take (out_pos st) (out_buf st) @ run"
      using overwrite_twice(1) [OF out_le] by (simp add: st'_def)
    then have "out_buf st'' = take (out_pos st) (out_buf st) @ raw"
      using buf raw by simp
    with loop fin show ?thesis by simp
  qed
qed

lemma rle_loop_unit0:
  fixes st :: rle_state
  assumes "rle_inv inb st"
  shows "\<exists>st'. rle_loop 0 inb st = Some st' \<and> out_buf st' = out_buf st"
  using assms
proof (induction "0 :: nat" inb st rule: rle_loop.induct)
  case (1 inb st)
  show ?case
  proof (cases "1 < in_size st \<and> out_size st \<noteq> 0")
    case False
    then have "rle_loop 0 inb st = Some st"
      by (subst rle_loop.simps) auto
    then show ?thesis by simp
  next
    case True
    then have run: "1 < in_size st" "out_size st \<noteq> 0" by simp_all
    have "\<exists>st'. rle_body 0 inb st = Continue st' \<and> rle_inv inb st' \<and> out_buf st' = out_buf st"
    proof (cases "sint (inb ! in_pos st) < 0")
      case neg: True
      from rle_body_cases [OF "1.prems" run, of 0]
      obtain st' where "rle_body 0 inb st = Continue st'" "rle_inv inb st'"
        using neg by auto
      moreover have "out_buf st' = out_buf st"
        using rle_body_literal [OF "1.prems" run neg, of 0] calculation(1)
        by (simp add: Let_def)
      ultimately show ?thesis by blast
    next
      case False
      then have nonneg: "0 \<le> sint (inb ! in_pos st)" by simp
      from rle_body_cases [OF "1.prems" run, of 0]
      obtain st' where "rle_body 0 inb st = Continue st'" "rle_inv inb st'"
        by auto
      moreover have "out_buf st' = out_buf st"
        using rle_body_repeat [OF "1.prems" run nonneg, of 0] calculation(1)
        by (simp add: Let_def)
      ultimately show ?thesis by blast
    qed
    then obtain st' where b: "rle_body 0 inb st = Continue st'" and i: "rle_inv inb st'"
      and o: "out_buf st' = out_buf st" by blast
    have "rle_loop 0 inb st = rle_loop 0 inb st'"
      using True b by (subst rle_loop.simps) simp
    with "1.hyps" [OF True b i] o show ?thesis by simp
  qed
qed

lemma rle_decode_unit0:
  assumes "rle_size bpp = 0"
  shows "rle_decode bpp inb outb (length inb) (length outb) = Some outb"
proof -
  from rle_loop_unit0 [OF rle_init_inv [of inb outb]] obtain st'
    where "rle_loop 0 inb (rle_init outb (length inb) (length outb)) = Some st'"
      and "out_buf st' = out_buf (rle_init outb (length inb) (length outb))"
    by blast
  then show ?thesis
    using assms by (simp add: rle_decode_def rle_init_def)
qed

text \<open>
  Claim C5, as stated, fails at 1 bit per pixel. There the unit is \<open>(1 * 2) / 8 = 0\<close>
  bytes, a literal run copies \<open>(-code + 1) * 0 = 0\<close> bytes, and the decoder writes
  nothing at all, whatever the stream (\<open>rle_decode_unit0\<close>): the one-byte buffer \<open>AA\<close>
  does not come back out of an output buffer that held \<open>00\<close>, neither from the output
  of the encoder nor from the stream \<open>FF AA\<close>, a control byte \<open>-1\<close> followed by the
  raw byte.
\<close>

theorem literal_roundtrip_fails_at_1bpp:
  "rle_decode 1 (literal_encode (rle_size 1) [0xAA]) [0x00]
       (length (literal_encode (rle_size 1) [0xAA])) (length [0xAA :: byte])
     = Some [0x00]
   \<and> rle_decode 1 [0xFF, 0xAA] [0x00] 2 1 = Some [0x00]
   \<and> [0x00] \<noteq> [0xAA :: byte]"
  by (simp add: rle_size_def literal_encode.simps rle_decode_def rle_init_def rle_loop.simps
      rle_body_def literal_run_def memcpy_def Let_def)

text \<open>
  Claim C5, amended. For 4, 8 and 16 bits per pixel, where the unit is 1, 2 and 4 bytes,
  encoding any raw buffer as literal runs and decoding the result into an output buffer
  of the length of the raw buffer gives back the raw buffer.
\<close>

theorem literal_roundtrip:
  assumes "bpp \<in> {4, 8, 16}" and "length outb = length raw"
  shows "rle_decode bpp (literal_encode (rle_size bpp) raw) outb
           (length (literal_encode (rle_size bpp) raw)) (length raw) = Some raw"
proof -
  let ?enc = "literal_encode (rle_size bpp) raw"
  let ?st = "rle_init outb (length ?enc) (length raw)"
  have unit: "0 < rle_size bpp"
    using assms(1) by (auto simp: rle_size_def)
  have inv: "rle_inv ?enc ?st"
    using assms(2) by (simp add: rle_inv_def rle_init_def)
  have src: "drop (in_pos ?st) ?enc = literal_encode (rle_size bpp) raw"
    by (simp add: rle_init_def)
  have dst: "out_size ?st = length raw"
    by (simp add: rle_init_def)
  from rle_loop_literal_encode [OF unit inv src dst] obtain st'
    where "rle_loop (rle_size bpp) ?enc ?st = Some st'"
      and "out_buf st' = take (out_pos ?st) (out_buf ?st) @ raw"
    by blast
  then show ?thesis
    by (simp add: rle_decode_def rle_init_def)
qed

theorem literal_roundtrip_witness:
  "(4 :: byte) \<in> {4, 8, 16} \<and> length [0, 0, 0 :: byte] = length [1, 2, 3 :: byte]
   \<and> literal_encode (rle_size 4) [1, 2, 3] = [0xFE, 1, 2, 3]
   \<and> rle_decode 4 [0xFE, 1, 2, 3] [0, 0, 0] 4 3 = Some [1, 2, 3]"
proof -
  have enc: "literal_encode (rle_size 4) [1, 2, 3] = [0xFE, 1, 2, 3]"
    by (simp add: rle_size_def literal_encode.simps Let_def)
  have l4: "length [0xFE, 1, 2, 3 :: byte] = 4" and l3: "length [1, 2, 3 :: byte] = 3"
    by simp_all
  have "rle_decode 4 [0xFE, 1, 2, 3] [0, 0, 0] 4 3 = Some [1, 2, 3]"
    using literal_roundtrip [of 4 "[0, 0, 0]" "[1, 2, 3]"]
    unfolding enc l4 l3 by simp
  with enc show ?thesis by simp
qed

section \<open>Properties of the protocol exchange\<close>

subsection \<open>The header\<close>

lemma scan_header_bytes:
  "scan_header (b0 # b1 # b2 # b3 # b4 # b5 # b6 # b7 # b8 # b9 # b10 # b11 # b12 # b13 # b14 # rest)
     = Some \<lparr>hdr_size = le32 b1 b2 b3 b4, hdr_width = le16 b9 b10,
             hdr_height = le16 b11 b12, hdr_bpp = b13\<rparr>"
  by (simp add: scan_header_def)

lemma long_list:
  assumes "15 \<le> length p"
  shows "\<exists>b0 b1 b2 b3 b4 b5 b6 b7 b8 b9 b10 b11 b12 b13 b14 rest.
           p = b0 # b1 # b2 # b3 # b4 # b5 # b6 # b7 # b8 # b9 # b10 # b11 # b12 # b13 # b14 # rest"
  using assms by (auto simp: numeral_eq_Suc Suc_le_length_iff)

lemma scan_header_short: "length p < 15 \<Longrightarrow> scan_header p = None"
  by (auto simp: scan_header_def numeral_eq_Suc less_Suc_eq_le length_Suc_conv
           split: list.splits option.splits field.splits)

text \<open>
  Claim C6, as stated, fails. The format string \<^verbatim>\<open>"bwhhhhbb"\<close> has four 16-bit fields,
  of which the first two are skipped and the last two are the width and the height: there
  are two ignored 16-bit fields, not three, so the width starts at byte offset
  \<open>1 + 4 + 2 + 2 = 9\<close> and the height at offset 11. On the packet whose byte at offset
  \<open>i\<close> is \<open>i\<close>, the width is the value of bytes 9 and 10, which differs from the value
  of bytes 11 and 12, and the height is the value of bytes 11 and 12, which differs from
  the value of bytes 13 and 14.
\<close>

theorem header_offsets_counterexample:
  "map_option hdr_width (scan_header [0, 1, 2, 3, 4, 5, 6, 7, 8, 9, 10, 11, 12, 13, 14, 15, 16])
     = Some (le16 9 10)
   \<and> le16 9 10 \<noteq> le16 11 12
   \<and> map_option hdr_height (scan_header [0, 1, 2, 3, 4, 5, 6, 7, 8, 9, 10, 11, 12, 13, 14, 15, 16])
     = Some (le16 11 12)
   \<and> le16 11 12 \<noteq> le16 13 14"
  by (simp add: scan_header_bytes le16_def)

text \<open>
  Claim C6, amended. The first packet is read as one ignored byte, a 32-bit payload size
  at offsets 1 to 4, two ignored 16-bit fields at offsets 5 to 8, a 16-bit width at
  offsets 9 and 10, a 16-bit height at offsets 11 and 12, the bits per pixel at offset 13
  and one ignored byte at offset 14; whatever follows is not looked at.
\<close>

theorem scan_header_layout:
  assumes "15 \<le> length p"
  shows "scan_header p = Some \<lparr>hdr_size = le32 (p ! 1) (p ! 2) (p ! 3) (p ! 4),
            hdr_width = le16 (p ! 9) (p ! 10), hdr_height = le16 (p ! 11) (p ! 12),
            hdr_bpp = p ! 13\<rparr>"
proof -
  from long_list [OF assms] obtain b0 b1 b2 b3 b4 b5 b6 b7 b8 b9 b10 b11 b12 b13 b14 rest
    where p: "p = b0 # b1 # b2 # b3 # b4 # b5 # b6 # b7 # b8 # b9 # b10 # b11 # b12 # b13 # b14 # rest"
    by blast
  show ?thesis
    unfolding p scan_header_bytes by simp
qed

theorem scan_header_layout_witness:
  "15 \<le> length [0, 10, 0, 0, 0, 0xEE, 0xEE, 0xEE, 0xEE, 4, 0, 2, 0, 8, 0xEE :: byte]
   \<and> scan_header [0, 10, 0, 0, 0, 0xEE, 0xEE, 0xEE, 0xEE, 4, 0, 2, 0, 8, 0xEE]
       = Some \<lparr>hdr_size = 10, hdr_width = 4, hdr_height = 2, hdr_bpp = 8\<rparr>"
  using scan_header_layout [of "[0, 10, 0, 0, 0, 0xEE, 0xEE, 0xEE, 0xEE, 4, 0, 2, 0, 8, 0xEE]"]
  by (simp add: le16_def le32_def)

subsection \<open>Reassembly of the payload\<close>

lemma reassemble_done: "reassemble maxsize 0 tmp p script = (0, Filled tmp)"
  by (subst reassemble.simps) simp

lemma reassemble_step:
  assumes "reassemble maxsize sz tmp p script = (n, Filled tmp')" and "sz \<noteq> 0"
  shows "\<exists>b script' n'. script = (0, b) # script' \<and> n = Suc n'
           \<and> p + min sz maxsize \<le> length tmp \<and> 1 + min sz maxsize \<le> length b
           \<and> reassemble maxsize (sz - min sz maxsize)
                 (take p tmp @ take (min sz maxsize) (drop 1 b) @ drop (p + min sz maxsize) tmp)
                 (p + min sz maxsize) script' = (n', Filled tmp')"
proof -
  have len: "(if maxsize < sz then maxsize else sz) = min sz maxsize"
    by (simp add: min_def)
  from assms show ?thesis
    by (subst (asm) reassemble.simps)
       (auto simp: Let_def len memcpy_def split: if_splits option.splits prod.splits list.splits)
qed

lemma reassemble_filled_from:
  assumes "reassemble maxsize sz tmp p script = (n, Filled tmp')" and "p + sz = length tmp"
  shows "n \<le> length script
         \<and> tmp' = take p tmp @ concat (packet_slices maxsize sz (map snd (take n script)))
         \<and> map length (packet_slices maxsize sz (map snd (take n script)))
               = slice_lengths maxsize sz n
         \<and> length (concat (packet_slices maxsize sz (map snd (take n script)))) = sz
         \<and> concat (packet_slices maxsize sz (map snd (take n script)))
               = take sz (concat (map (\<lambda>b. take maxsize (drop 1 b)) (map snd (take n script))))"
  using assms
proof (induction script arbitrary: sz tmp p n)
  case Nil
  show ?case
  proof (cases "sz = 0")
    case True
    with Nil show ?thesis by (simp add: reassemble_done)
  next
    case False
    with reassemble_step [OF Nil.prems(1)] show ?thesis by simp
  qed
next
  case (Cons rb script)
  show ?case
  proof (cases "sz = 0")
    case True
    with Cons.prems show ?thesis by (simp add: reassemble_done)
  next
    case False
    define len where "len = min sz maxsize"
    from reassemble_step [OF Cons.prems(1) False]
    obtain b n' where rb: "rb = (0, b)" and n: "n = Suc n'"
      and c1: "p + len \<le> length tmp" and c2: "1 + len \<le> length b"
      and rec: "reassemble maxsize (sz - len)
                  (take p tmp @ take len (drop 1 b) @ drop (p + len) tmp) (p + len) script
                = (n', Filled tmp')"
      unfolding len_def by auto
    let ?tmp1 = "take p tmp @ take len (drop 1 b) @ drop (p + len) tmp"
    let ?pk = "map snd (take n' script)"
    let ?f = "\<lambda>b. take maxsize (drop 1 b)"
    have ls: "length (take len (drop 1 b)) = len" using c2 by simp
    have l1: "p + len + (sz - len) = length ?tmp1"
      using c1 ls Cons.prems(2) by (simp add: len_def)
    from Cons.IH [OF rec l1]
    have ih1: "n' \<le> length script"
      and ih2: "tmp' = take (p + len) ?tmp1 @ concat (packet_slices maxsize (sz - len) ?pk)"
      and ih3: "map length (packet_slices maxsize (sz - len) ?pk)
                  = slice_lengths maxsize (sz - len) n'"
      and ih4: "length (concat (packet_slices maxsize (sz - len) ?pk)) = sz - len"
      and ih5: "concat (packet_slices maxsize (sz - len) ?pk)
                  = take (sz - len) (concat (map ?f ?pk))"
      by blast+
    have t: "take (p + len) ?tmp1 = take p tmp @ take len (drop 1 b)"
      using overwrite_twice(1) [of p "take len (drop 1 b)" tmp] c1 ls by simp
    have slices: "packet_slices maxsize sz (map snd (take n (rb # script)))
                    = take len (drop 1 b) # packet_slices maxsize (sz - len) ?pk"
      by (simp add: n rb len_def)
    have lens: "slice_lengths maxsize sz n = len # slice_lengths maxsize (sz - len) n'"
      by (simp add: n len_def)
    have len_le: "len \<le> sz" by (simp add: len_def)
    have trunc: "take len (drop 1 b) @ take (sz - len) (concat (map ?f ?pk))
                   = take sz (?f b @ concat (map ?f ?pk))"
    proof (cases "maxsize < sz")
      case True
      then have "len = maxsize" by (simp add: len_def)
      moreover have "length (?f b) = maxsize" using c2 \<open>len = maxsize\<close> by simp
      ultimately show ?thesis using True by simp
    next
      case False
      then have "len = sz" by (simp add: len_def)
      moreover have "sz \<le> length (?f b)" using c2 \<open>len = sz\<close> False by simp
      ultimately show ?thesis using False by (simp add: min_def)
    qed
    have "n \<le> length (rb # script)" using ih1 n by simp
    moreover have "tmp' = take p tmp @ concat (packet_slices maxsize sz (map snd (take n (rb # script))))"
      unfolding slices using ih2 t by simp
    moreover have "map length (packet_slices maxsize sz (map snd (take n (rb # script))))
                     = slice_lengths maxsize sz n"
      unfolding slices lens using ih3 ls by simp
    moreover have "length (concat (packet_slices maxsize sz (map snd (take n (rb # script))))) = sz"
      unfolding slices using ih4 ls len_le by simp
    moreover have "concat (packet_slices maxsize sz (map snd (take n (rb # script))))
        = take sz (concat (map ?f (map snd (take n (rb # script)))))"
    proof -
      have "concat (packet_slices maxsize sz (map snd (take n (rb # script))))
              = take len (drop 1 b) @ take (sz - len) (concat (map ?f ?pk))"
        unfolding slices using ih5 by simp
      also have "\<dots> = take sz (?f b @ concat (map ?f ?pk))" by (rule trunc)
      also have "?f b @ concat (map ?f ?pk) = concat (map ?f (map snd (take n (rb # script))))"
        by (simp add: n rb)
      finally show ?thesis .
    qed
    ultimately show ?thesis by blast
  qed
qed

lemma reassemble_succeeds:
  assumes "0 < maxsize" and "p + sz = length tmp"
    and "\<forall>rb \<in> set script. fst rb = 0 \<and> length (snd rb) = maxsize + 1"
    and "sz \<le> maxsize * length script"
  shows "\<exists>n tmp'. reassemble maxsize sz tmp p script = (n, Filled tmp')"
  using assms(2-)
proof (induction script arbitrary: sz tmp p)
  case Nil
  then show ?case by (simp add: reassemble_done)
next
  case (Cons rb script)
  show ?case
  proof (cases "sz = 0")
    case True
    then show ?thesis by (simp add: reassemble_done)
  next
    case False
    obtain b where rb: "rb = (0, b)" and lb: "length b = maxsize + 1"
      using Cons.prems(2) by (cases rb) auto
    define len where "len = (if maxsize < sz then maxsize else sz)"
    let ?tmp1 = "take p tmp @ take len (drop 1 b) @ drop (p + len) tmp"
    have len_le: "len \<le> sz" "len \<le> maxsize" by (simp_all add: len_def)
    have mc: "memcpy tmp p b 1 len = Some ?tmp1"
      using len_le lb Cons.prems(1) by (simp add: memcpy_def)
    have l1: "p + len + (sz - len) = length ?tmp1"
      using len_le lb Cons.prems(1) by simp
    have rest: "\<forall>rb \<in> set script. fst rb = 0 \<and> length (snd rb) = maxsize + 1"
      using Cons.prems(2) by simp
    have enough: "sz - len \<le> maxsize * length script"
      using Cons.prems(3) by (auto simp: len_def)
    from Cons.IH [OF l1 rest enough] obtain n tmp'
      where "reassemble maxsize (sz - len) ?tmp1 (p + len) script = (n, Filled tmp')"
      by blast
    then have "reassemble maxsize sz tmp p (rb # script) = (Suc n, Filled tmp')"
      using False mc unfolding rb
      by (subst reassemble.simps) (simp add: Let_def len_def [symmetric])
    then show ?thesis by blast
  qed
qed

lemma reassemble_filled_at_start:
  assumes "reassemble maxsize sz tmp 0 script = (n, Filled tmp')" and "length tmp = sz"
  shows "tmp' = concat (packet_slices maxsize sz (map snd (take n script)))"
    and "map length (packet_slices maxsize sz (map snd (take n script)))
           = slice_lengths maxsize sz n"
    and "length tmp' = sz"
    and "tmp' = take sz (concat (map (\<lambda>b. take maxsize (drop 1 b)) (map snd (take n script))))"
proof -
  let ?packets = "map snd (take n script)"
  have "0 + sz = length tmp" using assms(2) by simp
  from reassemble_filled_from [OF assms(1) this]
  have a: "tmp' = take 0 tmp @ concat (packet_slices maxsize sz ?packets)"
    and b: "map length (packet_slices maxsize sz ?packets) = slice_lengths maxsize sz n"
    and c: "length (concat (packet_slices maxsize sz ?packets)) = sz"
    and d: "concat (packet_slices maxsize sz ?packets)
              = take sz (concat (map (\<lambda>b. take maxsize (drop 1 b)) ?packets))"
    by blast+
  show e: "tmp' = concat (packet_slices maxsize sz ?packets)"
    using a by simp
  show "map length (packet_slices maxsize sz ?packets) = slice_lengths maxsize sz n"
    by (rule b)
  show "length tmp' = sz"
    unfolding e by (rule c)
  show "tmp' = take sz (concat (map (\<lambda>b. take maxsize (drop 1 b)) ?packets))"
    unfolding e by (rule d)
qed

lemma maxsize_of_eq:
  assumes "0 < packet_max_datasize h" and "packet_max_datasize h < 2 ^ 64"
  shows "maxsize_of h = packet_max_datasize h - 1"
proof -
  have "packet_max_datasize h + 2 ^ 64 - 1 = (packet_max_datasize h - 1) + 2 ^ 64"
    using assms(1) by simp
  then have "maxsize_of h = ((packet_max_datasize h - 1) + 2 ^ 64) mod 2 ^ 64"
    by (simp only: maxsize_of_def)
  also have "\<dots> = (packet_max_datasize h - 1) mod 2 ^ 64"
    by simp
  also have "\<dots> = packet_max_datasize h - 1"
    using assms(2) by simp
  finally show ?thesis .
qed

text \<open>
  The buffer that \<^verbatim>\<open>nspire_screenshot\<close> hands to \<^verbatim>\<open>rle_decode\<close> is the one this loop
  has filled.
\<close>

lemma screenshot_decodes_payload:
  assumes "connect_ret h = 0" and "write8_ret h = 0"
    and "reads h = (0, first) # script" and "scan_header first = Some hdr"
    and "malloc_tmp_ok h" and "malloc_image_ok h" and "out_len hdr = Some out_sz"
    and "payload_loop h hdr script = (n, Filled tmp')"
  shows "outcome (nspire_screenshot h) =
           (case rle_decode (hdr_bpp hdr) tmp' (map (fresh h) [0..<out_sz])
                   (unat (hdr_size hdr)) out_sz of
              None \<Rightarrow> Undefined
            | Some pixels \<Rightarrow>
                Returned Success
                  (Some \<lparr>img_width = hdr_width hdr, img_height = hdr_height hdr,
                          img_bpp = hdr_bpp hdr, img_data = pixels\<rparr>))"
  using assms
  by (simp add: nspire_screenshot_def receive_image_def Let_def finish_def
           split: option.splits)

text \<open>
  Claim C4. Take the loop as \<^verbatim>\<open>nspire_screenshot\<close> runs it, for any declared size in
  the header and any reads, on a handle whose \<^verbatim>\<open>packet_max_datasize\<close> is a positive
  \<^verbatim>\<open>size_t\<close>. When the loop ends with \<^verbatim>\<open>size\<close> at 0 after \<open>n\<close> reads, the buffer \<^verbatim>\<open>tmp\<close>
  is the concatenation, in order, of one slice per packet read: the bytes of the packet
  from offset 1 on, \<open>min remaining (packet_max_datasize - 1)\<close> of them, where
  \<open>remaining\<close> is what was still to come before that packet. Each slice has exactly that
  length, the buffer has the declared size as its length, and it equals the data bytes of
  the packets, up to \<open>packet_max_datasize - 1\<close> after the leading byte of each,
  concatenated and cut at the declared size. (\<open>reassemble_succeeds\<close> shows that the loop
  does end this way when enough full packets arrive.)
\<close>

theorem payload_loop_filled:
  assumes "0 < packet_max_datasize h" and "packet_max_datasize h < 2 ^ 64"
    and "payload_loop h hdr script = (n, Filled tmp')"
  shows "let declared_size = unat (hdr_size hdr);
             maxsize = packet_max_datasize h - 1;
             packets = map snd (take n script)
         in tmp' = concat (packet_slices maxsize declared_size packets)
            \<and> map length (packet_slices maxsize declared_size packets)
                  = slice_lengths maxsize declared_size n
            \<and> length tmp' = declared_size
            \<and> tmp' = take declared_size
                         (concat (map (\<lambda>b. take maxsize (drop 1 b)) packets))"
proof -
  let ?sz = "unat (hdr_size hdr)"
  let ?maxsize = "packet_max_datasize h - 1"
  have run: "reassemble ?maxsize ?sz (map (fresh h) [0..<?sz]) 0 script = (n, Filled tmp')"
    using assms(3) maxsize_of_eq [OF assms(1,2)] by (simp add: payload_loop_def)
  have len: "length (map (fresh h) [0..<?sz]) = ?sz"
    by simp
  note facts = reassemble_filled_at_start [OF run len]
  show ?thesis
    unfolding Let_def using facts by blast
qed

theorem payload_loop_filled_witness:
  "0 < packet_max_datasize
         \<lparr>packet_max_datasize = 5, connect_ret = 0, write8_ret = 0, reads = [],
          malloc_tmp_ok = True, malloc_image_ok = True, fresh = (\<lambda>_. 0)\<rparr>
   \<and> packet_max_datasize
         \<lparr>packet_max_datasize = 5, connect_ret = 0, write8_ret = 0, reads = [],
          malloc_tmp_ok = True, malloc_image_ok = True, fresh = (\<lambda>_. 0)\<rparr> < 2 ^ 64
   \<and> payload_loop
         \<lparr>packet_max_datasize = 5, connect_ret = 0, write8_ret = 0, reads = [],
          malloc_tmp_ok = True, malloc_image_ok = True, fresh = (\<lambda>_. 0)\<rparr>
         \<lparr>hdr_size = 6, hdr_width = 4, hdr_height = 2, hdr_bpp = 8\<rparr>
         [(0, [1, 0x00, 0xAA, 0xBB, 0xFE]), (0, [2, 0x11, 0x22, 0x33, 0x44])]
       = (2, Filled [0x00, 0xAA, 0xBB, 0xFE, 0x11, 0x22])
   \<and> [0x00, 0xAA, 0xBB, 0xFE, 0x11, 0x22]
        = concat (packet_slices 4 6 [[1, 0x00, 0xAA, 0xBB, 0xFE], [2, 0x11, 0x22, 0x33, 0x44]])
   \<and> [0x00, 0xAA, 0xBB, 0xFE, 0x11, 0x22 :: byte]
        = take 6 (concat (map (\<lambda>b. take 4 (drop 1 b))
            [[1, 0x00, 0xAA, 0xBB, 0xFE], [2, 0x11, 0x22, 0x33, 0x44]]))"
proof -
  let ?h = "\<lparr>packet_max_datasize = 5, connect_ret = 0, write8_ret = 0, reads = [],
          malloc_tmp_ok = True, malloc_image_ok = True, fresh = (\<lambda>_. 0 :: byte)\<rparr>"
  let ?hdr = "\<lparr>hdr_size = 6, hdr_width = 4, hdr_height = 2, hdr_bpp = 8\<rparr>"
  let ?script = "[(0 :: int, [1, 0x00, 0xAA, 0xBB, 0xFE :: byte]), (0, [2, 0x11, 0x22, 0x33, 0x44])]"
  have p1: "0 < packet_max_datasize ?h" and p2: "packet_max_datasize ?h < 2 ^ 64"
    by simp_all
  have six: "[0..<6] = [0, 1, 2, 3, 4, 5 :: nat]"
    by (simp add: upt_rec)
  have run: "payload_loop ?h ?hdr ?script = (2, Filled [0x00, 0xAA, 0xBB, 0xFE, 0x11, 0x22])"
    by (simp add: payload_loop_def maxsize_of_def six reassemble.simps memcpy_def Let_def)
  from payload_loop_filled [OF p1 p2 run] p1 p2 run show ?thesis
    by (simp add: Let_def)
qed

subsection \<open>Release of the connection\<close>

lemma write_failure_no_disconnect:
  assumes "connect_ret h = 0" and "write8_ret h \<noteq> 0"
  shows "Service_disconnect \<notin> set (trace (nspire_screenshot h))"
    and "outcome (nspire_screenshot h) = Returned (Transport_error (write8_ret h)) None"
  using assms by (simp_all add: nspire_screenshot_def)

lemma finish_last: "last (trace (finish tr tmp r img)) = Service_disconnect"
  by (simp add: finish_def)

lemma finish_outcome: "outcome (finish tr tmp r img) = Returned r img"
  by (simp add: finish_def)

lemma after_loop_disconnects:
  assumes "outcome (after_loop h tr hdr out_sz e) = Returned r img"
  shows "last (trace (after_loop h tr hdr out_sz e)) = Service_disconnect"
  using assms by (cases e) (auto simp: finish_def split: option.splits)

lemma receive_image_disconnects:
  assumes "outcome (receive_image h tr script hdr) = Returned r img"
  shows "last (trace (receive_image h tr script hdr)) = Service_disconnect"
  using assms
  by (auto simp: receive_image_def Let_def finish_def after_loop_disconnects
           split: if_splits option.splits)

lemma later_exits_disconnect:
  assumes "connect_ret h = 0" and "write8_ret h = 0"
    and "outcome (nspire_screenshot h) = Returned r img"
  shows "last (trace (nspire_screenshot h)) = Service_disconnect"
  using assms
  by (auto simp: nspire_screenshot_def Let_def finish_def receive_image_disconnects
           split: list.splits if_splits option.splits)

text \<open>
  Claim C1 does not hold of the code. When \<^verbatim>\<open>service_connect\<close> succeeds and
  \<^verbatim>\<open>data_write8\<close> fails, \<^verbatim>\<open>nspire_screenshot\<close> executes \<^verbatim>\<open>return ret\<close> directly: the
  calls made are the connect and the write, \<^verbatim>\<open>service_disconnect\<close> is not among them,
  and the error of the write is returned with no image allocated. Every later exit goes
  through the label \<^verbatim>\<open>end\<close> and disconnects (\<open>later_exits_disconnect\<close>).
\<close>

theorem write_failure_returns_connected:
  "nspire_screenshot
     \<lparr>packet_max_datasize = 64, connect_ret = 0, write8_ret = - 1, reads = [],
      malloc_tmp_ok = True, malloc_image_ok = True, fresh = (\<lambda>_. 0)\<rparr>
   = \<lparr>trace = [Service_connect 0x4024, Data_write8 0x00],
      outcome = Returned (Transport_error (- 1)) None\<rparr>"
  by (simp add: nspire_screenshot_def)


end
